theory Spec2Isabelle
  imports Complex_Main "HOL-Library.Word" "HOL-Library.Sublist"
begin

section \<open>The node of the STEALTH network model (node.h, node.cc)\<close>

text \<open>
  A shallow embedding of the three registries of \<^verbatim>\<open>ns3::Node\<close>: the protocol
  handler list \<^verbatim>\<open>m_handlers\<close>, the neighbor list \<^verbatim>\<open>m_neighborList\<close> and the
  attending list \<^verbatim>\<open>m_attendingList\<close>. Every member function becomes a function
  that takes the node and returns the new node (or the value read). A
  \<^verbatim>\<open>std::vector\<close> is a list; an iterator is a position in it, or the past-the-end
  position; dereferencing the past-the-end or an unassigned iterator is a fault.
\<close>

subsection \<open>Data\<close>

text \<open>
  Modelled from the spec: \<^verbatim>\<open>ns3::Address\<close> is declared outside these sources; the
  spec calls addresses value-comparable identifiers, so \<^verbatim>\<open>operator==\<close> on
  addresses is equality of identifiers.
\<close>
type_synonym Address = nat

text \<open>
  Modelled from the spec: a \<^verbatim>\<open>Ptr<NetDevice>\<close> is an opaque device identifier, the
  value 0 being the null pointer (the source compares it with 0).
\<close>
type_synonym NetDevicePtr = nat

text \<open>
  Modelled from the spec: a \<^verbatim>\<open>ProtocolHandler\<close> callback is an opaque handle
  compared by identity (\<^verbatim>\<open>Callback::IsEqual\<close>).
\<close>
type_synonym ProtocolHandler = nat

text \<open>Packets and packet types are only passed on to the handlers.\<close>
type_synonym PacketPtr = nat
type_synonym PacketType = nat

record ProtocolHandlerEntry =
  handler :: ProtocolHandler
  device :: NetDevicePtr
  protocol :: "16 word"
  promiscuous :: bool

text \<open>
  The trust of a neighbor is a \<^verbatim>\<open>double\<close> that the node only stores, copies and
  compares with \<^verbatim>\<open>></\<close>; it is a real number here (the ordered, non-NaN values).
\<close>
record Neighbor =
  ip :: Address
  competence :: string
  interests :: "string list"
  trust :: real
  around :: bool

record Attending =
  ip :: Address
  criticalData :: string
  attendingTime :: real
  attendingPriority :: "32 word"

record Node =
  m_id :: "32 word"
  m_devices :: "NetDevicePtr list"
  m_handlers :: "ProtocolHandlerEntry list"
  m_neighborList :: "Neighbor list"
  m_attendingList :: "Attending list"

text \<open>One invocation of a protocol handler, with the arguments it was given.\<close>
record HandlerCall =
  callee :: ProtocolHandler
  argDevice :: NetDevicePtr
  argPacket :: PacketPtr
  argProtocol :: "16 word"
  argFrom :: Address
  argTo :: Address
  argPacketType :: PacketType

datatype fault =
  AssertionFailed
  | EndIteratorDereferenced
  | UnassignedIteratorDereferenced
  | IndexOutOfRange

text \<open>\<^verbatim>\<open>v.erase (v.begin () + k)\<close>.\<close>
definition erase_at :: "'a list \<Rightarrow> nat \<Rightarrow> 'a list" where
  "erase_at xs k = take k xs @ drop (Suc k) xs"

subsection \<open>Protocol handlers\<close>

text \<open>
  \<^verbatim>\<open>RegisterProtocolHandler\<close> appends the entry. For a promiscuous handler it first
  sets the promiscuous receive callback of the device given, or of every device of
  the node when the device is null: the first component of the result lists the
  devices whose callback was set.
\<close>
definition RegisterProtocolHandler ::
  "Node \<Rightarrow> ProtocolHandler \<Rightarrow> 16 word \<Rightarrow> NetDevicePtr \<Rightarrow> bool \<Rightarrow> NetDevicePtr list \<times> Node" where
  "RegisterProtocolHandler n h protocolType dev promisc =
     (let entry = \<lparr>handler = h, device = dev, protocol = protocolType, promiscuous = promisc\<rparr>;
          callbackSet = (if promisc then (if dev = 0 then m_devices n else [dev]) else [])
      in (callbackSet, n\<lparr>m_handlers := m_handlers n @ [entry]\<rparr>))"

text \<open>The loop of \<^verbatim>\<open>UnregisterProtocolHandler\<close>: erase the first entry whose handler is equal, and break.\<close>
fun UnregisterProtocolHandler_loop ::
  "ProtocolHandlerEntry list \<Rightarrow> ProtocolHandler \<Rightarrow> ProtocolHandlerEntry list" where
  "UnregisterProtocolHandler_loop [] h = []"
| "UnregisterProtocolHandler_loop (i # rest) h =
     (if handler i = h then rest else i # UnregisterProtocolHandler_loop rest h)"

definition UnregisterProtocolHandler :: "Node \<Rightarrow> ProtocolHandler \<Rightarrow> Node" where
  "UnregisterProtocolHandler n h =
     n\<lparr>m_handlers := UnregisterProtocolHandler_loop (m_handlers n) h\<rparr>"

text \<open>
  The loop of \<^verbatim>\<open>ReceiveFromDevice\<close> over \<^verbatim>\<open>m_handlers\<close>. The state is the flag
  \<^verbatim>\<open>found\<close> and the handler invocations made so far, oldest first. The handlers
  are opaque: an invocation is recorded, and it does not change the handler list.
\<close>
fun ReceiveFromDevice_loop ::
  "ProtocolHandlerEntry list \<Rightarrow> NetDevicePtr \<Rightarrow> PacketPtr \<Rightarrow> 16 word \<Rightarrow> Address \<Rightarrow> Address
     \<Rightarrow> PacketType \<Rightarrow> bool \<Rightarrow> bool \<times> HandlerCall list \<Rightarrow> bool \<times> HandlerCall list" where
  "ReceiveFromDevice_loop [] dev packet proto fromA toA packetType promisc st = st"
| "ReceiveFromDevice_loop (i # rest) dev packet proto fromA toA packetType promisc (found, calls) =
     (if device i = 0 \<or> (device i \<noteq> 0 \<and> device i = dev) then
        (if protocol i = 0 \<or> protocol i = proto then
           (if promisc = promiscuous i then
              ReceiveFromDevice_loop rest dev packet proto fromA toA packetType promisc
                (True, calls @ [\<lparr>callee = handler i, argDevice = dev, argPacket = packet,
                     argProtocol = proto, argFrom = fromA, argTo = toA,
                     argPacketType = packetType\<rparr>])
            else ReceiveFromDevice_loop rest dev packet proto fromA toA packetType promisc (found, calls))
         else ReceiveFromDevice_loop rest dev packet proto fromA toA packetType promisc (found, calls))
      else ReceiveFromDevice_loop rest dev packet proto fromA toA packetType promisc (found, calls))"

text \<open>
  \<^verbatim>\<open>ReceiveFromDevice\<close>. The parameter \<open>context\<close> is the value of
  \<^verbatim>\<open>Simulator::GetContext ()\<close>, which \<^verbatim>\<open>NS_ASSERT_MSG\<close> compares with the node id
  before anything else. The result is the value returned and the handler invocations.
\<close>
definition ReceiveFromDevice ::
  "Node \<Rightarrow> 32 word \<Rightarrow> NetDevicePtr \<Rightarrow> PacketPtr \<Rightarrow> 16 word \<Rightarrow> Address \<Rightarrow> Address
     \<Rightarrow> PacketType \<Rightarrow> bool \<Rightarrow> fault + (bool \<times> HandlerCall list)" where
  "ReceiveFromDevice n context dev packet proto fromA toA packetType promisc =
     (if context \<noteq> m_id n then Inl AssertionFailed
      else Inr (ReceiveFromDevice_loop (m_handlers n) dev packet proto fromA toA packetType
                  promisc (False, [])))"

subsection \<open>Neighbors\<close>

definition RegisterNeighbor :: "Node \<Rightarrow> Address \<Rightarrow> string \<Rightarrow> string list \<Rightarrow> real \<Rightarrow> Node" where
  "RegisterNeighbor n a c ints t =
     n\<lparr>m_neighborList := m_neighborList n @
        [\<lparr>Neighbor.ip = a, competence = c, interests = ints, trust = t, around = True\<rparr>]\<rparr>"

definition GetNeighborIpList :: "Node \<Rightarrow> Address list" where
  "GetNeighborIpList n = map Neighbor.ip (m_neighborList n)"

definition TurnOffLiveNeighbors :: "Node \<Rightarrow> Node" where
  "TurnOffLiveNeighbors n =
     n\<lparr>m_neighborList := map (\<lambda>i. i\<lparr>around := False\<rparr>) (m_neighborList n)\<rparr>"

text \<open>The loop of \<^verbatim>\<open>IsAlreadyNeighbor\<close>: the flag is set at the first match, then break.\<close>
fun IsAlreadyNeighbor_loop :: "Neighbor list \<Rightarrow> Address \<Rightarrow> bool" where
  "IsAlreadyNeighbor_loop [] a = False"
| "IsAlreadyNeighbor_loop (i # rest) a =
     (if Neighbor.ip i = a then True else IsAlreadyNeighbor_loop rest a)"

definition IsAlreadyNeighbor :: "Node \<Rightarrow> Address \<Rightarrow> bool" where
  "IsAlreadyNeighbor n a = IsAlreadyNeighbor_loop (m_neighborList n) a"

text \<open>The loop of \<^verbatim>\<open>UnregisterNeighbor\<close>: erase the first record of the address, and break.\<close>
fun UnregisterNeighbor_loop :: "Neighbor list \<Rightarrow> Address \<Rightarrow> Neighbor list" where
  "UnregisterNeighbor_loop [] a = []"
| "UnregisterNeighbor_loop (i # rest) a =
     (if Neighbor.ip i = a then rest else i # UnregisterNeighbor_loop rest a)"

definition UnregisterNeighbor :: "Node \<Rightarrow> Address \<Rightarrow> Node" where
  "UnregisterNeighbor n a =
     (if IsAlreadyNeighbor n a
      then n\<lparr>m_neighborList := UnregisterNeighbor_loop (m_neighborList n) a\<rparr>
      else n)"

text \<open>
  The loop of \<^verbatim>\<open>UnregisterOffNeighbors\<close>. The iterator \<open>i\<close> is a position. After
  \<^verbatim>\<open>m_neighborList.erase (i)\<close> the source goes on with the same iterator, which then
  stands at the record that followed the erased one; otherwise it is incremented.
  The loop ends when the iterator is the past-the-end position.
\<close>
function UnregisterOffNeighbors_loop :: "Neighbor list \<Rightarrow> nat \<Rightarrow> Neighbor list" where
  "UnregisterOffNeighbors_loop l i =
     (if i < length l then
        (if around (l ! i) = False then UnregisterOffNeighbors_loop (erase_at l i) i
         else UnregisterOffNeighbors_loop l (Suc i))
      else l)"
  by pat_completeness auto
termination
  by (relation "measure (\<lambda>(l, i). length l - i)") (auto simp: erase_at_def)

declare UnregisterOffNeighbors_loop.simps [simp del]

definition UnregisterOffNeighbors :: "Node \<Rightarrow> Node" where
  "UnregisterOffNeighbors n =
     n\<lparr>m_neighborList := UnregisterOffNeighbors_loop (m_neighborList n) 0\<rparr>"

text \<open>The loop of \<^verbatim>\<open>TurnNeighborOn\<close>: set the flag of the first record of the address, and break.\<close>
fun TurnNeighborOn_loop :: "Neighbor list \<Rightarrow> Address \<Rightarrow> Neighbor list" where
  "TurnNeighborOn_loop [] a = []"
| "TurnNeighborOn_loop (i # rest) a =
     (if Neighbor.ip i = a then i\<lparr>around := True\<rparr> # rest else i # TurnNeighborOn_loop rest a)"

definition TurnNeighborOn :: "Node \<Rightarrow> Address \<Rightarrow> Node" where
  "TurnNeighborOn n a = n\<lparr>m_neighborList := TurnNeighborOn_loop (m_neighborList n) a\<rparr>"

definition IsThereAnyNeighbor :: "Node \<Rightarrow> bool" where
  "IsThereAnyNeighbor n = (\<not> (m_neighborList n = []))"

text \<open>
  The search loop shared by \<^verbatim>\<open>IsAliveNeighbor\<close>, \<^verbatim>\<open>GetNeighborTrust\<close>,
  \<^verbatim>\<open>GetNeighborCompetence\<close> and \<^verbatim>\<open>GetNeighborInterests\<close>: the iterator stops at the
  first record of the address (\<open>Some\<close> of its position, counted from \<open>k\<close>) or runs
  to the past-the-end position (\<open>None\<close>).
\<close>
fun neighbor_iterator :: "Neighbor list \<Rightarrow> nat \<Rightarrow> Address \<Rightarrow> nat option" where
  "neighbor_iterator [] k a = None"
| "neighbor_iterator (i # rest) k a =
     (if Neighbor.ip i = a then Some k else neighbor_iterator rest (Suc k) a)"

text \<open>Reading a field through the iterator; the past-the-end iterator must not be dereferenced.\<close>
definition neighbor_deref :: "Neighbor list \<Rightarrow> nat option \<Rightarrow> (Neighbor \<Rightarrow> 'a) \<Rightarrow> fault + 'a" where
  "neighbor_deref l it field =
     (case it of
        None \<Rightarrow> Inl EndIteratorDereferenced
      | Some k \<Rightarrow> if k < length l then Inr (field (l ! k)) else Inl EndIteratorDereferenced)"

definition IsAliveNeighbor :: "Node \<Rightarrow> Address \<Rightarrow> fault + bool" where
  "IsAliveNeighbor n a =
     neighbor_deref (m_neighborList n) (neighbor_iterator (m_neighborList n) 0 a) around"

definition GetNeighborTrust :: "Node \<Rightarrow> Address \<Rightarrow> fault + real" where
  "GetNeighborTrust n a =
     neighbor_deref (m_neighborList n) (neighbor_iterator (m_neighborList n) 0 a) trust"

definition GetNeighborCompetence :: "Node \<Rightarrow> Address \<Rightarrow> fault + string" where
  "GetNeighborCompetence n a =
     neighbor_deref (m_neighborList n) (neighbor_iterator (m_neighborList n) 0 a) competence"

definition GetNeighborInterests :: "Node \<Rightarrow> Address \<Rightarrow> fault + string list" where
  "GetNeighborInterests n a =
     neighbor_deref (m_neighborList n) (neighbor_iterator (m_neighborList n) 0 a) interests"

text \<open>
  The inner loop of \<^verbatim>\<open>GetPlusTrustNeighbor\<close> for one competence \<open>c\<close>, over the records
  from position \<open>k\<close> on. The state is the best trust so far, the iterator \<open>n\<close>
  (\<open>None\<close> while it has never been assigned) and the flag \<^verbatim>\<open>gotTrust\<close>.
\<close>
fun GetPlusTrustNeighbor_inner ::
  "Neighbor list \<Rightarrow> nat \<Rightarrow> string \<Rightarrow> real \<times> nat option \<times> bool \<Rightarrow> real \<times> nat option \<times> bool" where
  "GetPlusTrustNeighbor_inner [] k c st = st"
| "GetPlusTrustNeighbor_inner (it # rest) k c (best, n, gotTrust) =
     (if competence it = c then
        (if trust it > best
         then GetPlusTrustNeighbor_inner rest (Suc k) c (trust it, Some k, True)
         else GetPlusTrustNeighbor_inner rest (Suc k) c (best, n, gotTrust))
      else GetPlusTrustNeighbor_inner rest (Suc k) c (best, n, gotTrust))"

text \<open>
  The outer loop of \<^verbatim>\<open>GetPlusTrustNeighbor\<close>. Its counter \<open>i\<close> is a \<^verbatim>\<open>uint8_t\<close>: it is
  compared with \<^verbatim>\<open>competences.size ()\<close> by value, it indexes the vector, and \<open>i + 1\<close>
  wraps from 255 to 0. The loop may not return: its result is \<open>None\<close> then.
\<close>
partial_function (option) GetPlusTrustNeighbor_loop ::
  "Neighbor list \<Rightarrow> string list \<Rightarrow> 8 word \<Rightarrow> real \<times> nat option \<times> bool
     \<Rightarrow> (fault + real \<times> nat option \<times> bool) option" where
  "GetPlusTrustNeighbor_loop l competences i st =
     (if unat i = length competences then Some (Inr st)
      else if \<not> unat i < length competences then Some (Inl IndexOutOfRange)
      else (let st' = GetPlusTrustNeighbor_inner l 0 (competences ! unat i) st
            in if snd (snd st') then Some (Inr st')
               else GetPlusTrustNeighbor_loop l competences (i + 1) st'))"

declare GetPlusTrustNeighbor_loop.simps [code]

text \<open>
  \<^verbatim>\<open>GetPlusTrustNeighbor\<close>: \<open>None\<close> when the outer loop does not return, a fault when
  \<^verbatim>\<open>n->ip\<close> reads an iterator that was never assigned, the address otherwise.
\<close>
definition GetPlusTrustNeighbor :: "Node \<Rightarrow> string list \<Rightarrow> (fault + Address) option" where
  "GetPlusTrustNeighbor nd competences =
     (case GetPlusTrustNeighbor_loop (m_neighborList nd) competences 0 (0, None, False) of
        None \<Rightarrow> None
      | Some (Inl f) \<Rightarrow> Some (Inl f)
      | Some (Inr (best, n, gotTrust)) \<Rightarrow>
          (case n of
             None \<Rightarrow> Some (Inl UnassignedIteratorDereferenced)
           | Some k \<Rightarrow>
               if k < length (m_neighborList nd)
               then Some (Inr (Neighbor.ip (m_neighborList nd ! k)))
               else Some (Inl EndIteratorDereferenced)))"

subsection \<open>Attending calls\<close>

definition RegisterAttendingCall ::
  "Node \<Rightarrow> Address \<Rightarrow> string \<Rightarrow> 32 word \<Rightarrow> real \<Rightarrow> Node" where
  "RegisterAttendingCall n a data priority attendingCallTime =
     n\<lparr>m_attendingList := m_attendingList n @
        [\<lparr>Attending.ip = a, criticalData = data, attendingTime = attendingCallTime,
          attendingPriority = priority\<rparr>]\<rparr>"

text \<open>
  \<^verbatim>\<open>(int) m_attendingList.size ()\<close>: the size is cut to the 32 bits of an \<^verbatim>\<open>int\<close> and
  read as a signed number.
\<close>
definition GetNPendingAttending :: "Node \<Rightarrow> int" where
  "GetNPendingAttending n = sint (word_of_nat (length (m_attendingList n)) :: 32 word)"

text \<open>The loop of \<^verbatim>\<open>CloseAttending\<close>: erase the first record of the address, and break.\<close>
fun CloseAttending_loop :: "Attending list \<Rightarrow> Address \<Rightarrow> Attending list" where
  "CloseAttending_loop [] a = []"
| "CloseAttending_loop (i # rest) a =
     (if Attending.ip i = a then rest else i # CloseAttending_loop rest a)"

definition CloseAttending :: "Node \<Rightarrow> Address \<Rightarrow> Node" where
  "CloseAttending n a =
     (if GetNPendingAttending n \<noteq> 0
      then n\<lparr>m_attendingList := CloseAttending_loop (m_attendingList n) a\<rparr>
      else n)"

definition GetAttendingIpList :: "Node \<Rightarrow> Address list" where
  "GetAttendingIpList n = map Attending.ip (m_attendingList n)"

subsection \<open>A node used in the examples\<close>

text \<open>
  Two devices, two neighbors (address 1, a nurse with trust 0.9, and address 2, a
  doctor with trust 0.2), one wildcard protocol handler, no attending call.
\<close>
definition example_node :: Node where
  "example_node =
     \<lparr>m_id = 7, m_devices = [1, 2],
      m_handlers = [\<lparr>handler = 5, device = 0, protocol = 0, promiscuous = False\<rparr>],
      m_neighborList =
        [\<lparr>Neighbor.ip = 1, competence = ''nurse'', interests = [''vitals''], trust = 9 / 10,
           around = True\<rparr>,
         \<lparr>Neighbor.ip = 2, competence = ''doctor'', interests = [], trust = 2 / 10,
           around = False\<rparr>],
      m_attendingList = []\<rparr>"

subsection \<open>Sequences of calls\<close>

text \<open>A node as the constructor leaves it: every list is empty.\<close>
definition fresh_node :: Node where
  "fresh_node = \<lparr>m_id = 0, m_devices = [], m_handlers = [], m_neighborList = [],
                  m_attendingList = []\<rparr>"

text \<open>The calls that change the neighbor list, and a sequence of them run from a node.\<close>
datatype NeighborOp =
    OpRegisterNeighbor Address string "string list" real
  | OpUnregisterNeighbor Address
  | OpTurnOffLiveNeighbors
  | OpUnregisterOffNeighbors
  | OpTurnNeighborOn Address

fun apply_NeighborOp :: "Node \<Rightarrow> NeighborOp \<Rightarrow> Node" where
  "apply_NeighborOp n (OpRegisterNeighbor a c ints t) = RegisterNeighbor n a c ints t"
| "apply_NeighborOp n (OpUnregisterNeighbor a) = UnregisterNeighbor n a"
| "apply_NeighborOp n OpTurnOffLiveNeighbors = TurnOffLiveNeighbors n"
| "apply_NeighborOp n OpUnregisterOffNeighbors = UnregisterOffNeighbors n"
| "apply_NeighborOp n (OpTurnNeighborOn a) = TurnNeighborOn n a"

fun run_NeighborOps :: "Node \<Rightarrow> NeighborOp list \<Rightarrow> Node" where
  "run_NeighborOps n [] = n"
| "run_NeighborOps n (x # ops) = run_NeighborOps (apply_NeighborOp n x) ops"

text \<open>
  The sequences of calls in which \<^verbatim>\<open>RegisterNeighbor\<close> is only called for an
  address that \<^verbatim>\<open>IsAlreadyNeighbor\<close> has just reported absent.
\<close>
fun registers_checked :: "Node \<Rightarrow> NeighborOp list \<Rightarrow> bool" where
  "registers_checked n [] = True"
| "registers_checked n (OpRegisterNeighbor a c ints t # ops) =
     (\<not> IsAlreadyNeighbor n a \<and> registers_checked (RegisterNeighbor n a c ints t) ops)"
| "registers_checked n (x # ops) = registers_checked (apply_NeighborOp n x) ops"

text \<open>The calls that change the handler list, and a sequence of them run from a node.\<close>
datatype HandlerOp =
    OpRegisterProtocolHandler ProtocolHandler "16 word" NetDevicePtr bool
  | OpUnregisterProtocolHandler ProtocolHandler

fun apply_HandlerOp :: "Node \<Rightarrow> HandlerOp \<Rightarrow> Node" where
  "apply_HandlerOp n (OpRegisterProtocolHandler h protocolType dev promisc) =
     snd (RegisterProtocolHandler n h protocolType dev promisc)"
| "apply_HandlerOp n (OpUnregisterProtocolHandler h) = UnregisterProtocolHandler n h"

fun run_HandlerOps :: "Node \<Rightarrow> HandlerOp list \<Rightarrow> Node" where
  "run_HandlerOps n [] = n"
| "run_HandlerOps n (x # ops) = run_HandlerOps (apply_HandlerOp n x) ops"

text \<open>The entries handed to \<^verbatim>\<open>RegisterProtocolHandler\<close>, in the order of the calls.\<close>
fun registered_entries :: "HandlerOp list \<Rightarrow> ProtocolHandlerEntry list" where
  "registered_entries [] = []"
| "registered_entries (OpRegisterProtocolHandler h protocolType dev promisc # ops) =
     \<lparr>handler = h, device = dev, protocol = protocolType, promiscuous = promisc\<rparr>
       # registered_entries ops"
| "registered_entries (OpUnregisterProtocolHandler h # ops) = registered_entries ops"

text \<open>
  The condition under which a dispatch for the device \<open>dev\<close>, the protocol \<open>proto\<close>
  and the mode \<open>promisc\<close> is to reach an entry: the device filter is null or the
  device, the protocol filter is 0 or the protocol, and the promiscuous flags agree.
\<close>
definition handler_matches :: "ProtocolHandlerEntry \<Rightarrow> NetDevicePtr \<Rightarrow> 16 word \<Rightarrow> bool \<Rightarrow> bool" where
  "handler_matches e dev proto promisc \<longleftrightarrow>
     (device e = 0 \<or> device e = dev) \<and> (protocol e = 0 \<or> protocol e = proto)
     \<and> promiscuous e = promisc"

text \<open>The invocation of the handler of an entry with the arguments of the dispatch.\<close>
definition invocation ::
  "NetDevicePtr \<Rightarrow> PacketPtr \<Rightarrow> 16 word \<Rightarrow> Address \<Rightarrow> Address \<Rightarrow> PacketType
     \<Rightarrow> ProtocolHandlerEntry \<Rightarrow> HandlerCall" where
  "invocation dev packet proto fromA toA packetType e =
     \<lparr>callee = handler e, argDevice = dev, argPacket = packet, argProtocol = proto,
      argFrom = fromA, argTo = toA, argPacketType = packetType\<rparr>"

subsection \<open>What the selection of a neighbor is to return\<close>

text \<open>A competence qualifies when some record of it has a trust above 0.\<close>
definition qualifies :: "Neighbor list \<Rightarrow> string \<Rightarrow> bool" where
  "qualifies l c \<longleftrightarrow> (\<exists>r\<in>set l. competence r = c \<and> 0 < trust r)"

text \<open>
  Position \<open>k\<close> holds the record to select for the competence \<open>c\<close>: it has this
  competence, no record of the competence has a greater trust, and every earlier
  record of the competence has a smaller one.
\<close>
definition best_of_competence :: "Neighbor list \<Rightarrow> string \<Rightarrow> nat \<Rightarrow> bool" where
  "best_of_competence l c k \<longleftrightarrow>
     k < length l \<and> competence (l ! k) = c
     \<and> (\<forall>r\<in>set l. competence r = c \<longrightarrow> trust r \<le> trust (l ! k))
     \<and> (\<forall>r\<in>set (take k l). competence r = c \<longrightarrow> trust r < trust (l ! k))"

subsection \<open>A queue at the limit of the counter\<close>

text \<open>A node whose attending list holds \<open>2\<^sup>3\<^sup>1 - 1\<close> records, the greatest \<^verbatim>\<open>int\<close>.\<close>
definition full_queue_node :: Node where
  "full_queue_node =
     fresh_node\<lparr>m_attendingList :=
       replicate 2147483647
         \<lparr>Attending.ip = 1, criticalData = ''InfoA'', attendingTime = 0, attendingPriority = 1\<rparr>\<rparr>"

section \<open>Properties\<close>

subsection \<open>The search loops\<close>

lemma neighbor_iterator_first:
  "IsAlreadyNeighbor_loop l a \<Longrightarrow>
     \<exists>j<length l. neighbor_iterator l k a = Some (k + j) \<and> Neighbor.ip (l ! j) = a
        \<and> (\<forall>m<j. Neighbor.ip (l ! m) \<noteq> a)"
proof (induction l arbitrary: k)
  case Nil
  then show ?case by simp
next
  case (Cons i rest)
  show ?case
  proof (cases "Neighbor.ip i = a")
    case True
    then show ?thesis by auto
  next
    case False
    with Cons.prems have "IsAlreadyNeighbor_loop rest a" by simp
    from Cons.IH [OF this, of "Suc k"] obtain j where
      j: "j < length rest" "neighbor_iterator rest (Suc k) a = Some (Suc k + j)"
         "Neighbor.ip (rest ! j) = a" "\<forall>m<j. Neighbor.ip (rest ! m) \<noteq> a"
      by blast
    have "\<forall>m<Suc j. Neighbor.ip ((i # rest) ! m) \<noteq> a"
      using False j(4) by (auto simp: nth_Cons' less_Suc_eq_0_disj)
    with j False show ?thesis
      by (intro exI [of _ "Suc j"]) simp
  qed
qed

lemma neighbor_iterator_find:
  "neighbor_iterator l k a = None \<longleftrightarrow> find (\<lambda>r. Neighbor.ip r = a) l = None"
  by (induction l arbitrary: k) auto

lemma neighbor_iterator_Some:
  "neighbor_iterator l k a = Some m \<Longrightarrow>
     k \<le> m \<and> m - k < length l \<and> find (\<lambda>r. Neighbor.ip r = a) l = Some (l ! (m - k))"
proof (induction l arbitrary: k)
  case Nil
  then show ?case by simp
next
  case (Cons i rest)
  show ?case
  proof (cases "Neighbor.ip i = a")
    case True
    with Cons.prems show ?thesis by simp
  next
    case False
    with Cons.prems have "neighbor_iterator rest (Suc k) a = Some m" by simp
    from Cons.IH [OF this] have "Suc k \<le> m" "m - Suc k < length rest"
      "find (\<lambda>r. Neighbor.ip r = a) rest = Some (rest ! (m - Suc k))" by auto
    with False show ?thesis by (simp add: Suc_diff_le nth_Cons')
  qed
qed

lemma neighbor_deref_find:
  "neighbor_deref l (neighbor_iterator l 0 a) f =
     (case find (\<lambda>r. Neighbor.ip r = a) l of
        None \<Rightarrow> Inl EndIteratorDereferenced | Some r \<Rightarrow> Inr (f r))"
proof (cases "neighbor_iterator l 0 a")
  case None
  then show ?thesis
    using neighbor_iterator_find [of l 0 a] by (simp add: neighbor_deref_def)
next
  case (Some m)
  from neighbor_iterator_Some [OF this] show ?thesis
    using Some by (simp add: neighbor_deref_def)
qed

lemma IsAlreadyNeighbor_loop_find:
  "IsAlreadyNeighbor_loop l a \<longleftrightarrow> find (\<lambda>r. Neighbor.ip r = a) l \<noteq> None"
  by (induction l) auto

lemma IsAlreadyNeighbor_loop_iff:
  "IsAlreadyNeighbor_loop l a \<longleftrightarrow> a \<in> Neighbor.ip ` set l"
  by (induction l) auto

lemma find_append_first:
  "find P (xs @ ys) = (case find P xs of None \<Rightarrow> find P ys | Some x \<Rightarrow> Some x)"
  by (induction xs) auto

lemma find_TurnNeighborOn_loop:
  "find (\<lambda>r. Neighbor.ip r = x) (TurnNeighborOn_loop l a) =
     (if x = a then map_option (\<lambda>r. r\<lparr>around := True\<rparr>) (find (\<lambda>r. Neighbor.ip r = x) l)
      else find (\<lambda>r. Neighbor.ip r = x) l)"
  by (induction l) auto

lemma find_TurnOff:
  "find (\<lambda>r. Neighbor.ip r = x) (map (\<lambda>i. i\<lparr>around := False\<rparr>) l) =
     map_option (\<lambda>i. i\<lparr>around := False\<rparr>) (find (\<lambda>r. Neighbor.ip r = x) l)"
  by (induction l) auto

lemma find_foldl_TurnNeighborOn:
  "map_option around (find (\<lambda>r. Neighbor.ip r = x) (m_neighborList (foldl TurnNeighborOn n as))) =
     map_option (\<lambda>r. around r \<or> x \<in> set as) (find (\<lambda>r. Neighbor.ip r = x) (m_neighborList n))"
proof (induction as arbitrary: n)
  case Nil
  then show ?case by simp
next
  case (Cons a as)
  have nl: "m_neighborList (TurnNeighborOn n a) = TurnNeighborOn_loop (m_neighborList n) a"
    by (simp add: TurnNeighborOn_def)
  show ?case
    by (cases "find (\<lambda>r. Neighbor.ip r = x) (m_neighborList n)")
       (auto simp: Cons.IH nl find_TurnNeighborOn_loop)
qed

lemma UnregisterOffNeighbors_loop_filter:
  "i \<le> length l \<Longrightarrow> UnregisterOffNeighbors_loop l i = take i l @ filter around (drop i l)"
proof (induction l i rule: UnregisterOffNeighbors_loop.induct)
  case (1 l i)
  show ?case
  proof (cases "i < length l")
    case False
    with "1.prems" show ?thesis
      by (subst UnregisterOffNeighbors_loop.simps) simp
  next
    case True
    note lt = this
    have dr: "drop i l = l ! i # drop (Suc i) l"
      using lt by (simp add: Cons_nth_drop_Suc)
    show ?thesis
    proof (cases "around (l ! i)")
      case True
      have "UnregisterOffNeighbors_loop l i = UnregisterOffNeighbors_loop l (Suc i)"
        using lt True by (subst UnregisterOffNeighbors_loop.simps) simp
      also have "\<dots> = take (Suc i) l @ filter around (drop (Suc i) l)"
        using "1.IH"(2) lt True by simp
      finally show ?thesis using dr True lt by (simp add: take_Suc_conv_app_nth)
    next
      case False
      have "UnregisterOffNeighbors_loop l i = UnregisterOffNeighbors_loop (erase_at l i) i"
        using lt False by (subst UnregisterOffNeighbors_loop.simps) simp
      also have "\<dots> = take i (erase_at l i) @ filter around (drop i (erase_at l i))"
        using "1.IH"(1) lt False by (simp add: erase_at_def)
      finally show ?thesis using dr False lt by (simp add: erase_at_def)
    qed
  qed
qed

lemma UnregisterOffNeighbors_list:
  "m_neighborList (UnregisterOffNeighbors n) = filter around (m_neighborList n)"
  by (simp add: UnregisterOffNeighbors_def UnregisterOffNeighbors_loop_filter)

lemma filter_around_TurnOff: "filter around (map (\<lambda>i. i\<lparr>around := False\<rparr>) l) = []"
  by (induction l) simp_all

lemma UnregisterProtocolHandler_loop_absent:
  "\<forall>e\<in>set l. handler e \<noteq> h \<Longrightarrow> UnregisterProtocolHandler_loop l h = l"
  by (induction l) auto

lemma example_node_neighbor_1: "IsAlreadyNeighbor example_node 1"
  by (simp add: IsAlreadyNeighbor_def example_node_def)

lemma example_node_neighbor_3: "\<not> IsAlreadyNeighbor example_node 3"
  by (simp add: IsAlreadyNeighbor_def example_node_def)

subsection \<open>Liveness round\<close>

text \<open>
  Claim C3. Let every record be marked stale by \<^verbatim>\<open>TurnOffLiveNeighbors\<close>, and let
  \<^verbatim>\<open>TurnNeighborOn\<close> then be called for the addresses of a list \<open>S\<close>, in any order
  and any number of times. For every address \<open>x\<close> that has a record in the
  directory, \<^verbatim>\<open>IsAliveNeighbor (x)\<close> returns without a fault, and it returns true
  exactly when \<open>x\<close> is one of the addresses of \<open>S\<close>.
\<close>
theorem alive_after_round:
  assumes "IsAlreadyNeighbor n x"
  shows "IsAliveNeighbor (foldl TurnNeighborOn (TurnOffLiveNeighbors n) S) x = Inr (x \<in> set S)"
proof -
  from assms obtain r where r: "find (\<lambda>r. Neighbor.ip r = x) (m_neighborList n) = Some r"
    by (auto simp: IsAlreadyNeighbor_def IsAlreadyNeighbor_loop_find)
  have "map_option around
          (find (\<lambda>r. Neighbor.ip r = x)
             (m_neighborList (foldl TurnNeighborOn (TurnOffLiveNeighbors n) S))) = Some (x \<in> set S)"
    by (simp add: find_foldl_TurnNeighborOn TurnOffLiveNeighbors_def find_TurnOff r)
  then show ?thesis
    by (auto simp: IsAliveNeighbor_def neighbor_deref_find split: option.splits)
qed

theorem alive_after_round_witness:
  "IsAlreadyNeighbor example_node 1
   \<and> IsAliveNeighbor (foldl TurnNeighborOn (TurnOffLiveNeighbors example_node) [2]) 1 = Inr False
   \<and> IsAliveNeighbor (foldl TurnNeighborOn (TurnOffLiveNeighbors example_node) [2, 1]) 1 = Inr True"
  using alive_after_round [OF example_node_neighbor_1, of "[2]"]
    alive_after_round [OF example_node_neighbor_1, of "[2, 1]"] example_node_neighbor_1
  by simp

subsection \<open>Removing the stale records\<close>

text \<open>
  Claim C4. \<^verbatim>\<open>UnregisterOffNeighbors\<close> changes the neighbor list only, and leaves in
  it exactly the records whose flag \<^verbatim>\<open>around\<close> is true, in their former order.
  After \<^verbatim>\<open>TurnOffLiveNeighbors\<close> and no confirmation it leaves the directory empty,
  and \<^verbatim>\<open>IsThereAnyNeighbor\<close> returns false.
\<close>
theorem remove_stale:
  "UnregisterOffNeighbors n = n\<lparr>m_neighborList := filter around (m_neighborList n)\<rparr>
   \<and> m_neighborList (UnregisterOffNeighbors (TurnOffLiveNeighbors n)) = []
   \<and> IsThereAnyNeighbor (UnregisterOffNeighbors (TurnOffLiveNeighbors n)) = False"
proof -
  have a: "UnregisterOffNeighbors n = n\<lparr>m_neighborList := filter around (m_neighborList n)\<rparr>"
    by (simp add: UnregisterOffNeighbors_def UnregisterOffNeighbors_loop_filter)
  have b: "m_neighborList (UnregisterOffNeighbors (TurnOffLiveNeighbors n)) = []"
    by (simp add: UnregisterOffNeighbors_list TurnOffLiveNeighbors_def filter_around_TurnOff)
  from a b show ?thesis by (simp add: IsThereAnyNeighbor_def)
qed

subsection \<open>Lookups by address\<close>

text \<open>
  Claim C6. When \<^verbatim>\<open>IsAlreadyNeighbor (ip)\<close> is true, there is a first record \<open>k\<close>
  whose address is \<open>ip\<close>, and \<^verbatim>\<open>IsAliveNeighbor\<close>, \<^verbatim>\<open>GetNeighborTrust\<close>,
  \<^verbatim>\<open>GetNeighborCompetence\<close> and \<^verbatim>\<open>GetNeighborInterests\<close> return the fields
  \<^verbatim>\<open>around\<close>, \<^verbatim>\<open>trust\<close>, \<^verbatim>\<open>competence\<close> and \<^verbatim>\<open>interests\<close> of that record; none of
  them dereferences the past-the-end iterator.
\<close>
theorem lookups_first_record:
  assumes "IsAlreadyNeighbor n a"
  shows "\<exists>k<length (m_neighborList n).
           Neighbor.ip (m_neighborList n ! k) = a
         \<and> (\<forall>j<k. Neighbor.ip (m_neighborList n ! j) \<noteq> a)
         \<and> IsAliveNeighbor n a = Inr (around (m_neighborList n ! k))
         \<and> GetNeighborTrust n a = Inr (trust (m_neighborList n ! k))
         \<and> GetNeighborCompetence n a = Inr (competence (m_neighborList n ! k))
         \<and> GetNeighborInterests n a = Inr (interests (m_neighborList n ! k))"
proof -
  from assms have "IsAlreadyNeighbor_loop (m_neighborList n) a"
    by (simp add: IsAlreadyNeighbor_def)
  from neighbor_iterator_first [OF this, of 0] obtain k where
    k: "k < length (m_neighborList n)" "neighbor_iterator (m_neighborList n) 0 a = Some k"
       "Neighbor.ip (m_neighborList n ! k) = a" "\<forall>m<k. Neighbor.ip (m_neighborList n ! m) \<noteq> a"
    by auto
  then show ?thesis
    by (intro exI [of _ k])
       (simp add: IsAliveNeighbor_def GetNeighborTrust_def GetNeighborCompetence_def
          GetNeighborInterests_def neighbor_deref_def)
qed

theorem lookups_first_record_witness:
  "IsAlreadyNeighbor example_node 1
   \<and> (\<exists>k<length (m_neighborList example_node).
         Neighbor.ip (m_neighborList example_node ! k) = 1
       \<and> (\<forall>j<k. Neighbor.ip (m_neighborList example_node ! j) \<noteq> 1)
       \<and> IsAliveNeighbor example_node 1 = Inr (around (m_neighborList example_node ! k))
       \<and> GetNeighborTrust example_node 1 = Inr (trust (m_neighborList example_node ! k))
       \<and> GetNeighborCompetence example_node 1 = Inr (competence (m_neighborList example_node ! k))
       \<and> GetNeighborInterests example_node 1 = Inr (interests (m_neighborList example_node ! k)))"
  using lookups_first_record [OF example_node_neighbor_1] example_node_neighbor_1
  by blast

subsection \<open>Registration round trip\<close>

text \<open>
  Claim C7. When the address \<open>ip\<close> has no record in the directory, then after
  \<^verbatim>\<open>RegisterNeighbor (ip, c, ints, t)\<close> the lookups give back what was registered:
  \<^verbatim>\<open>GetNeighborCompetence (ip)\<close> is \<open>c\<close>, \<^verbatim>\<open>GetNeighborInterests (ip)\<close> is \<open>ints\<close>,
  \<^verbatim>\<open>GetNeighborTrust (ip)\<close> is \<open>t\<close>, and \<^verbatim>\<open>IsAliveNeighbor (ip)\<close> is true.
\<close>
theorem register_roundtrip:
  assumes "\<not> IsAlreadyNeighbor n a"
  shows "GetNeighborCompetence (RegisterNeighbor n a c ints t) a = Inr c
       \<and> GetNeighborInterests (RegisterNeighbor n a c ints t) a = Inr ints
       \<and> GetNeighborTrust (RegisterNeighbor n a c ints t) a = Inr t
       \<and> IsAliveNeighbor (RegisterNeighbor n a c ints t) a = Inr True"
proof -
  from assms have "find (\<lambda>r. Neighbor.ip r = a) (m_neighborList n) = None"
    by (simp add: IsAlreadyNeighbor_def IsAlreadyNeighbor_loop_find)
  then show ?thesis
    by (simp add: GetNeighborCompetence_def GetNeighborInterests_def GetNeighborTrust_def
          IsAliveNeighbor_def neighbor_deref_find RegisterNeighbor_def find_append_first)
qed

theorem register_roundtrip_witness:
  "\<not> IsAlreadyNeighbor example_node 3
   \<and> GetNeighborCompetence (RegisterNeighbor example_node 3 ''nurse'' [''vitals''] (7 / 10)) 3
       = Inr ''nurse''
   \<and> GetNeighborInterests (RegisterNeighbor example_node 3 ''nurse'' [''vitals''] (7 / 10)) 3
       = Inr [''vitals'']
   \<and> GetNeighborTrust (RegisterNeighbor example_node 3 ''nurse'' [''vitals''] (7 / 10)) 3
       = Inr (7 / 10)
   \<and> IsAliveNeighbor (RegisterNeighbor example_node 3 ''nurse'' [''vitals''] (7 / 10)) 3
       = Inr True"
  using register_roundtrip [OF example_node_neighbor_3, of "''nurse''" "[''vitals'']" "7 / 10"]
    example_node_neighbor_3
  by simp

subsection \<open>Unregistering what is not registered\<close>

text \<open>
  Claim C9. When the address \<open>ip\<close> has no record in the directory,
  \<^verbatim>\<open>UnregisterNeighbor (ip)\<close> leaves the node as it was, so \<^verbatim>\<open>GetNeighborIpList\<close>
  returns the same list before and after. When no entry of the handler list holds
  the handler \<open>h\<close>, \<^verbatim>\<open>UnregisterProtocolHandler (h)\<close> leaves the node as it was.
  Neither call can fault.
\<close>
theorem unregister_absent:
  "(\<not> IsAlreadyNeighbor n a \<longrightarrow>
      UnregisterNeighbor n a = n
      \<and> GetNeighborIpList (UnregisterNeighbor n a) = GetNeighborIpList n)
   \<and> ((\<forall>e\<in>set (m_handlers n). handler e \<noteq> h) \<longrightarrow> UnregisterProtocolHandler n h = n)"
  by (simp add: UnregisterNeighbor_def UnregisterProtocolHandler_def
        UnregisterProtocolHandler_loop_absent)

theorem unregister_absent_witness:
  "\<not> IsAlreadyNeighbor example_node 3
   \<and> UnregisterNeighbor example_node 3 = example_node
   \<and> GetNeighborIpList (UnregisterNeighbor example_node 3) = [1, 2]
   \<and> map handler (m_handlers example_node) = [5]
   \<and> UnregisterProtocolHandler example_node 6 = example_node"
proof -
  have h: "\<forall>e\<in>set (m_handlers example_node). handler e \<noteq> 6"
    by (simp add: example_node_def)
  have l: "GetNeighborIpList example_node = [1, 2]"
    by (simp add: GetNeighborIpList_def example_node_def)
  have m: "map handler (m_handlers example_node) = [5]"
    by (simp add: example_node_def)
  from unregister_absent [of example_node 3 6] example_node_neighbor_3 h l m
  show ?thesis by simp
qed

subsection \<open>At most one record per address\<close>

lemma ip_UnregisterNeighbor_loop_subset:
  "set (map Neighbor.ip (UnregisterNeighbor_loop l a)) \<subseteq> set (map Neighbor.ip l)"
  by (induction l) auto

lemma distinct_UnregisterNeighbor_loop:
  "distinct (map Neighbor.ip l) \<Longrightarrow> distinct (map Neighbor.ip (UnregisterNeighbor_loop l a))"
  using ip_UnregisterNeighbor_loop_subset by (induction l) auto

lemma ip_TurnNeighborOn_loop:
  "map Neighbor.ip (TurnNeighborOn_loop l a) = map Neighbor.ip l"
  by (induction l) auto

lemma distinct_apply_NeighborOp:
  assumes "distinct (GetNeighborIpList n)"
    and "\<And>a c ints t. x = OpRegisterNeighbor a c ints t \<Longrightarrow> \<not> IsAlreadyNeighbor n a"
  shows "distinct (GetNeighborIpList (apply_NeighborOp n x))"
proof (cases x)
  case (OpRegisterNeighbor a c ints t)
  with assms show ?thesis
    by (simp add: GetNeighborIpList_def RegisterNeighbor_def IsAlreadyNeighbor_def
          IsAlreadyNeighbor_loop_iff)
next
  case (OpUnregisterNeighbor a)
  with assms(1) show ?thesis
    by (simp add: GetNeighborIpList_def UnregisterNeighbor_def distinct_UnregisterNeighbor_loop)
next
  case OpTurnOffLiveNeighbors
  with assms(1) show ?thesis
    by (simp add: GetNeighborIpList_def TurnOffLiveNeighbors_def o_def)
next
  case OpUnregisterOffNeighbors
  with assms(1) show ?thesis
    by (simp add: GetNeighborIpList_def UnregisterOffNeighbors_list distinct_map_filter)
next
  case (OpTurnNeighborOn a)
  with assms(1) show ?thesis
    by (simp add: GetNeighborIpList_def TurnNeighborOn_def ip_TurnNeighborOn_loop)
qed

lemma registers_checked_Cons:
  "registers_checked n (x # ops) \<Longrightarrow>
     (\<forall>a c ints t. x = OpRegisterNeighbor a c ints t \<longrightarrow> \<not> IsAlreadyNeighbor n a)
     \<and> registers_checked (apply_NeighborOp n x) ops"
  by (cases x) simp_all

text \<open>
  Claim C5, as amended. \<^verbatim>\<open>RegisterNeighbor\<close> appends without looking for the address,
  so two registrations of one address leave two records (the theorem
  \<open>duplicate_registration\<close> below). When the directory starts without duplicates
  and every \<^verbatim>\<open>RegisterNeighbor (ip, ...)\<close> of the sequence is called while
  \<^verbatim>\<open>IsAlreadyNeighbor (ip)\<close> is false, then after any sequence of
  \<^verbatim>\<open>RegisterNeighbor\<close>, \<^verbatim>\<open>UnregisterNeighbor\<close>, \<^verbatim>\<open>TurnOffLiveNeighbors\<close>,
  \<^verbatim>\<open>UnregisterOffNeighbors\<close> and \<^verbatim>\<open>TurnNeighborOn\<close> calls the directory holds at
  most one record per address.
\<close>
theorem one_record_per_address:
  assumes "distinct (GetNeighborIpList n)" and "registers_checked n ops"
  shows "distinct (GetNeighborIpList (run_NeighborOps n ops))"
  using assms
proof (induction ops arbitrary: n)
  case Nil
  then show ?case by simp
next
  case (Cons x ops)
  from registers_checked_Cons [OF Cons.prems(2)]
  have x: "\<And>a c ints t. x = OpRegisterNeighbor a c ints t \<Longrightarrow> \<not> IsAlreadyNeighbor n a"
    and rest: "registers_checked (apply_NeighborOp n x) ops"
    by blast+
  have "distinct (GetNeighborIpList (apply_NeighborOp n x))"
    using Cons.prems(1) x by (rule distinct_apply_NeighborOp)
  from Cons.IH [OF this rest] show ?case by simp
qed

text \<open>
  Claim C5 as stated fails: from the empty directory, registering the address 1
  twice gives the address list \<open>[1, 1]\<close>.
\<close>
theorem duplicate_registration:
  "GetNeighborIpList (run_NeighborOps fresh_node
      [OpRegisterNeighbor 1 ''nurse'' [] (9 / 10), OpRegisterNeighbor 1 ''doctor'' [] (2 / 10)])
     = [1, 1]
   \<and> \<not> distinct (GetNeighborIpList (run_NeighborOps fresh_node
      [OpRegisterNeighbor 1 ''nurse'' [] (9 / 10), OpRegisterNeighbor 1 ''doctor'' [] (2 / 10)]))"
  by (simp add: GetNeighborIpList_def RegisterNeighbor_def fresh_node_def)

theorem one_record_per_address_witness:
  "distinct (GetNeighborIpList fresh_node)
   \<and> registers_checked fresh_node
        [OpRegisterNeighbor 1 ''nurse'' [] (9 / 10), OpRegisterNeighbor 2 ''doctor'' [] (2 / 10),
         OpTurnOffLiveNeighbors, OpTurnNeighborOn 2, OpUnregisterOffNeighbors,
         OpRegisterNeighbor 1 ''nurse'' [] (9 / 10), OpUnregisterNeighbor 2]
   \<and> distinct (GetNeighborIpList (run_NeighborOps fresh_node
        [OpRegisterNeighbor 1 ''nurse'' [] (9 / 10), OpRegisterNeighbor 2 ''doctor'' [] (2 / 10),
         OpTurnOffLiveNeighbors, OpTurnNeighborOn 2, OpUnregisterOffNeighbors,
         OpRegisterNeighbor 1 ''nurse'' [] (9 / 10), OpUnregisterNeighbor 2]))"
proof -
  have d: "distinct (GetNeighborIpList fresh_node)"
    by (simp add: GetNeighborIpList_def fresh_node_def)
  have c: "registers_checked fresh_node
        [OpRegisterNeighbor 1 ''nurse'' [] (9 / 10), OpRegisterNeighbor 2 ''doctor'' [] (2 / 10),
         OpTurnOffLiveNeighbors, OpTurnNeighborOn 2, OpUnregisterOffNeighbors,
         OpRegisterNeighbor 1 ''nurse'' [] (9 / 10), OpUnregisterNeighbor 2]"
    by (simp add: fresh_node_def RegisterNeighbor_def IsAlreadyNeighbor_def
          TurnOffLiveNeighbors_def TurnNeighborOn_def UnregisterOffNeighbors_list
          UnregisterOffNeighbors_def UnregisterOffNeighbors_loop_filter)
  from one_record_per_address [OF d c] d c show ?thesis by simp
qed

subsection \<open>Dispatch to the protocol handlers\<close>

lemma ReceiveFromDevice_loop_Cons:
  "ReceiveFromDevice_loop (i # rest) dev packet proto fromA toA packetType promisc (found, calls) =
     (if handler_matches i dev proto promisc
      then ReceiveFromDevice_loop rest dev packet proto fromA toA packetType promisc
             (True, calls @ [invocation dev packet proto fromA toA packetType i])
      else ReceiveFromDevice_loop rest dev packet proto fromA toA packetType promisc
             (found, calls))"
  by (auto simp: handler_matches_def invocation_def)

lemma ReceiveFromDevice_loop_filter:
  "ReceiveFromDevice_loop l dev packet proto fromA toA packetType promisc (found, calls) =
     (found \<or> filter (\<lambda>e. handler_matches e dev proto promisc) l \<noteq> [],
      calls @ map (invocation dev packet proto fromA toA packetType)
                (filter (\<lambda>e. handler_matches e dev proto promisc) l))"
proof (induction l arbitrary: found calls)
  case Nil
  then show ?case by simp
next
  case (Cons i rest)
  show ?case
    unfolding ReceiveFromDevice_loop_Cons by (simp add: Cons.IH)
qed

lemma subseq_UnregisterProtocolHandler_loop:
  "subseq (UnregisterProtocolHandler_loop l h) l"
  by (induction l) auto

lemma m_id_run_HandlerOps: "m_id (run_HandlerOps n ops) = m_id n"
proof (induction ops arbitrary: n)
  case Nil
  then show ?case by simp
next
  case (Cons x ops)
  then show ?case
    by (cases x) (simp_all add: RegisterProtocolHandler_def UnregisterProtocolHandler_def Let_def)
qed

lemma subseq_run_HandlerOps:
  "subseq (m_handlers (run_HandlerOps n ops)) (m_handlers n @ registered_entries ops)"
proof (induction ops arbitrary: n)
  case Nil
  then show ?case by simp
next
  case (Cons x ops)
  show ?case
  proof (cases x)
    case (OpRegisterProtocolHandler h protocolType dev promisc)
    then show ?thesis
      using Cons.IH [of "snd (RegisterProtocolHandler n h protocolType dev promisc)"]
      by (simp add: RegisterProtocolHandler_def Let_def)
  next
    case (OpUnregisterProtocolHandler h)
    have "subseq (m_handlers (run_HandlerOps (UnregisterProtocolHandler n h) ops))
            (UnregisterProtocolHandler_loop (m_handlers n) h @ registered_entries ops)"
      using Cons.IH [of "UnregisterProtocolHandler n h"]
      by (simp add: UnregisterProtocolHandler_def)
    moreover have "subseq (UnregisterProtocolHandler_loop (m_handlers n) h @ registered_entries ops)
                     (m_handlers n @ registered_entries ops)"
      by (intro list_emb_append_mono subseq_UnregisterProtocolHandler_loop) simp
    ultimately show ?thesis
      using OpUnregisterProtocolHandler by (auto intro: subseq_order.trans)
  qed
qed

text \<open>
  Claim C2. Let the handler list be reached from the empty one by any sequence of
  \<^verbatim>\<open>RegisterProtocolHandler\<close> and \<^verbatim>\<open>UnregisterProtocolHandler\<close> calls, and let
  \<^verbatim>\<open>ReceiveFromDevice\<close> run in the context of the node, as its assertion demands.
  The list is a subsequence of the entries registered, in the order of their
  registration. The dispatch invokes the handlers of exactly the entries of the list
  that match (device filter null or equal, protocol filter 0 or equal, same
  promiscuous flag), every one of them, in the order of the list, each with the
  arguments of the dispatch; it returns true exactly when it invoked one. On the
  empty list it invokes nothing and returns false.
\<close>
theorem dispatch_matching_entries:
  assumes "m_handlers n0 = []" and "n = run_HandlerOps n0 ops" and "context = m_id n"
  shows "subseq (m_handlers n) (registered_entries ops)
       \<and> ReceiveFromDevice n context dev packet proto fromA toA packetType promisc =
           Inr (filter (\<lambda>e. handler_matches e dev proto promisc) (m_handlers n) \<noteq> [],
                map (invocation dev packet proto fromA toA packetType)
                  (filter (\<lambda>e. handler_matches e dev proto promisc) (m_handlers n)))
       \<and> ReceiveFromDevice n0 (m_id n0) dev packet proto fromA toA packetType promisc =
           Inr (False, [])"
proof -
  have "subseq (m_handlers n) (registered_entries ops)"
    using subseq_run_HandlerOps [of n0 ops] assms(1,2) by simp
  moreover have "ReceiveFromDevice n context dev packet proto fromA toA packetType promisc =
           Inr (filter (\<lambda>e. handler_matches e dev proto promisc) (m_handlers n) \<noteq> [],
                map (invocation dev packet proto fromA toA packetType)
                  (filter (\<lambda>e. handler_matches e dev proto promisc) (m_handlers n)))"
    using assms(3) by (simp add: ReceiveFromDevice_def ReceiveFromDevice_loop_filter)
  moreover have "ReceiveFromDevice n0 (m_id n0) dev packet proto fromA toA packetType promisc =
           Inr (False, [])"
    using assms(1) by (simp add: ReceiveFromDevice_def)
  ultimately show ?thesis by blast
qed

theorem dispatch_matching_entries_witness:
  "m_handlers fresh_node = []
   \<and> m_id (run_HandlerOps fresh_node
        [OpRegisterProtocolHandler 5 0 0 False, OpRegisterProtocolHandler 6 2048 1 False,
         OpRegisterProtocolHandler 7 0 0 True, OpRegisterProtocolHandler 8 2054 0 False,
         OpUnregisterProtocolHandler 5, OpRegisterProtocolHandler 5 2048 0 False]) = 0
   \<and> ReceiveFromDevice
        (run_HandlerOps fresh_node
          [OpRegisterProtocolHandler 5 0 0 False, OpRegisterProtocolHandler 6 2048 1 False,
           OpRegisterProtocolHandler 7 0 0 True, OpRegisterProtocolHandler 8 2054 0 False,
           OpUnregisterProtocolHandler 5, OpRegisterProtocolHandler 5 2048 0 False])
        0 1 9 2048 3 4 0 False
       = Inr (True, [invocation 1 9 2048 3 4 0
                       \<lparr>handler = 6, device = 1, protocol = 2048, promiscuous = False\<rparr>,
                     invocation 1 9 2048 3 4 0
                       \<lparr>handler = 5, device = 0, protocol = 2048, promiscuous = False\<rparr>])
   \<and> ReceiveFromDevice fresh_node (m_id fresh_node) 1 9 2048 3 4 0 False = Inr (False, [])"
proof -
  define n where "n = run_HandlerOps fresh_node
        [OpRegisterProtocolHandler 5 0 0 False, OpRegisterProtocolHandler 6 2048 1 False,
         OpRegisterProtocolHandler 7 0 0 True, OpRegisterProtocolHandler 8 2054 0 False,
         OpUnregisterProtocolHandler 5, OpRegisterProtocolHandler 5 2048 0 False]"
  have e: "m_handlers fresh_node = []"
    by (simp add: fresh_node_def)
  have h: "m_handlers n =
             [\<lparr>handler = 6, device = 1, protocol = 2048, promiscuous = False\<rparr>,
              \<lparr>handler = 7, device = 0, protocol = 0, promiscuous = True\<rparr>,
              \<lparr>handler = 8, device = 0, protocol = 2054, promiscuous = False\<rparr>,
              \<lparr>handler = 5, device = 0, protocol = 2048, promiscuous = False\<rparr>]"
    unfolding n_def
    by (simp add: fresh_node_def RegisterProtocolHandler_def UnregisterProtocolHandler_def)
  have i: "0 = m_id n"
    unfolding n_def m_id_run_HandlerOps by (simp add: fresh_node_def)
  have "ReceiveFromDevice n 0 1 9 2048 3 4 0 False
          = Inr (True, [invocation 1 9 2048 3 4 0
                          \<lparr>handler = 6, device = 1, protocol = 2048, promiscuous = False\<rparr>,
                        invocation 1 9 2048 3 4 0
                          \<lparr>handler = 5, device = 0, protocol = 2048, promiscuous = False\<rparr>])"
    using dispatch_matching_entries [OF e n_def i, of 1 9 2048 3 4 0 False]
    by (simp add: h handler_matches_def)
  moreover have "ReceiveFromDevice fresh_node (m_id fresh_node) 1 9 2048 3 4 0 False
                   = Inr (False, [])"
    using dispatch_matching_entries [OF e n_def i, of 1 9 2048 3 4 0 False] by simp
  ultimately show ?thesis
    using e i unfolding n_def by simp
qed

subsection \<open>The attending calls\<close>

lemma CloseAttending_loop_absent:
  "a \<notin> Attending.ip ` set l \<Longrightarrow> CloseAttending_loop l a = l"
  by (induction l) auto

lemma CloseAttending_loop_first:
  "a \<in> Attending.ip ` set l \<Longrightarrow>
     \<exists>k<length l. Attending.ip (l ! k) = a \<and> (\<forall>j<k. Attending.ip (l ! j) \<noteq> a)
        \<and> CloseAttending_loop l a = erase_at l k"
proof (induction l)
  case Nil
  then show ?case by simp
next
  case (Cons i rest)
  show ?case
  proof (cases "Attending.ip i = a")
    case True
    then show ?thesis by (intro exI [of _ 0]) (simp add: erase_at_def)
  next
    case False
    with Cons.prems have "a \<in> Attending.ip ` set rest" by auto
    from Cons.IH [OF this] obtain k where
      k: "k < length rest" "Attending.ip (rest ! k) = a" "\<forall>j<k. Attending.ip (rest ! j) \<noteq> a"
         "CloseAttending_loop rest a = erase_at rest k"
      by blast
    have "\<forall>j<Suc k. Attending.ip ((i # rest) ! j) \<noteq> a"
      using False k(3) by (auto simp: nth_Cons' less_Suc_eq_0_disj)
    with k False show ?thesis
      by (intro exI [of _ "Suc k"]) (simp add: erase_at_def)
  qed
qed

lemma length_erase_at: "k < length l \<Longrightarrow> length (erase_at l k) = length l - 1"
  by (simp add: erase_at_def)

lemma sint_size: "k < 2 ^ 31 \<Longrightarrow> sint (word_of_nat k :: 32 word) = int k"
proof -
  assume k: "k < 2 ^ 31"
  then have "int k < 2 ^ 31" by simp
  moreover have "- (2 ^ 31) \<le> int k" by simp
  ultimately have "signed_take_bit 31 (int k) = int k"
    by (rule signed_take_bit_int_eq_self [rotated])
  then show ?thesis
    by (simp add: signed_of_nat)
qed

lemma int_pred: "0 < (m::nat) \<Longrightarrow> int (m - 1) = int m - 1"
  by (cases m) simp_all

lemma register_count:
  "length (m_attendingList n) < 2 ^ 31 - 1 \<Longrightarrow>
     GetNPendingAttending (RegisterAttendingCall n a d p t) = GetNPendingAttending n + 1"
proof -
  assume b: "length (m_attendingList n) < 2 ^ 31 - 1"
  then have "length (m_attendingList n) < 2 ^ 31" "Suc (length (m_attendingList n)) < 2 ^ 31"
    by simp_all
  then show ?thesis
    unfolding GetNPendingAttending_def RegisterAttendingCall_def
    by (simp add: sint_size del: of_nat_Suc)
qed

lemma close_present:
  assumes "length (m_attendingList n) < 2 ^ 31" and "a \<in> Attending.ip ` set (m_attendingList n)"
  shows "\<exists>k<length (m_attendingList n).
           Attending.ip (m_attendingList n ! k) = a
         \<and> (\<forall>j<k. Attending.ip (m_attendingList n ! j) \<noteq> a)
         \<and> CloseAttending n a = n\<lparr>m_attendingList := erase_at (m_attendingList n) k\<rparr>
         \<and> GetNPendingAttending (CloseAttending n a) = GetNPendingAttending n - 1"
proof -
  from CloseAttending_loop_first [OF assms(2)] obtain k where
    k: "k < length (m_attendingList n)" "Attending.ip (m_attendingList n ! k) = a"
       "\<forall>j<k. Attending.ip (m_attendingList n ! j) \<noteq> a"
       "CloseAttending_loop (m_attendingList n) a = erase_at (m_attendingList n) k"
    by blast
  from k(1) have pos: "0 < length (m_attendingList n)" by auto
  with assms(1) have nz: "GetNPendingAttending n \<noteq> 0"
    by (auto simp: GetNPendingAttending_def sint_size)
  then have c: "CloseAttending n a = n\<lparr>m_attendingList := erase_at (m_attendingList n) k\<rparr>"
    by (simp add: CloseAttending_def k(4))
  have len: "length (erase_at (m_attendingList n) k) = length (m_attendingList n) - 1"
    using k(1) by (rule length_erase_at)
  have before: "GetNPendingAttending n = int (length (m_attendingList n))"
    using assms(1) by (simp add: GetNPendingAttending_def sint_size)
  have "length (m_attendingList n) - 1 < 2 ^ 31"
    using assms(1) by simp
  then have after: "GetNPendingAttending (CloseAttending n a) = int (length (m_attendingList n) - 1)"
    by (simp add: c GetNPendingAttending_def len sint_size)
  have "int (length (m_attendingList n) - 1) = int (length (m_attendingList n)) - 1"
    using pos by (rule int_pred)
  with before after
  have "GetNPendingAttending (CloseAttending n a) = GetNPendingAttending n - 1"
    by simp
  with k c show ?thesis by blast
qed

lemma close_absent:
  "a \<notin> Attending.ip ` set (m_attendingList n) \<Longrightarrow> CloseAttending n a = n"
  by (simp add: CloseAttending_def CloseAttending_loop_absent)

lemma open_close_close:
  assumes "m_attendingList n = []"
  shows "GetNPendingAttending (RegisterAttendingCall n a d p t) = 1"
    and "GetNPendingAttending (CloseAttending (RegisterAttendingCall n a d p t) a) = 0"
    and "CloseAttending (CloseAttending (RegisterAttendingCall n a d p t) a) a
           = CloseAttending (RegisterAttendingCall n a d p t) a"
    and "GetNPendingAttending
           (CloseAttending (CloseAttending (RegisterAttendingCall n a d p t) a) a) = 0"
  using assms
  by (simp_all add: GetNPendingAttending_def RegisterAttendingCall_def CloseAttending_def)

text \<open>
  Claim C8, as amended. \<^verbatim>\<open>GetNPendingAttending\<close> returns the size of the list as an
  \<^verbatim>\<open>int\<close>, so the count follows the list only while the size fits an \<^verbatim>\<open>int\<close>
  (the theorem \<open>count_wraps\<close> below).
  \<^verbatim>\<open>RegisterAttendingCall\<close> appends one record; when the list holds fewer than
  \<open>2\<^sup>3\<^sup>1 - 1\<close> records the count increases by exactly 1.
  \<^verbatim>\<open>CloseAttending (ip)\<close> leaves the node as it was when no record has the address
  \<open>ip\<close>, in particular when the list is empty; when the list holds fewer than
  \<open>2\<^sup>3\<^sup>1\<close> records and one of them has the address, it erases the first such
  record, changes nothing else, and the count decreases by exactly 1.
  On a node whose list is empty, after \<^verbatim>\<open>RegisterAttendingCall (ip, ...)\<close> the count
  is 1, after \<^verbatim>\<open>CloseAttending (ip)\<close> it is 0, and a second \<^verbatim>\<open>CloseAttending (ip)\<close>
  changes nothing: the count stays 0. No call has a fault.
\<close>
theorem attending_queue:
  "m_attendingList (RegisterAttendingCall n a d p t) =
     m_attendingList n @
       [\<lparr>Attending.ip = a, criticalData = d, attendingTime = t, attendingPriority = p\<rparr>]
   \<and> (length (m_attendingList n) < 2 ^ 31 - 1 \<longrightarrow>
        GetNPendingAttending (RegisterAttendingCall n a d p t) = GetNPendingAttending n + 1)
   \<and> (a \<notin> Attending.ip ` set (m_attendingList n) \<longrightarrow> CloseAttending n a = n)
   \<and> (length (m_attendingList n) < 2 ^ 31 \<and> a \<in> Attending.ip ` set (m_attendingList n) \<longrightarrow>
        (\<exists>k<length (m_attendingList n).
            Attending.ip (m_attendingList n ! k) = a
          \<and> (\<forall>j<k. Attending.ip (m_attendingList n ! j) \<noteq> a)
          \<and> CloseAttending n a = n\<lparr>m_attendingList := erase_at (m_attendingList n) k\<rparr>
          \<and> GetNPendingAttending (CloseAttending n a) = GetNPendingAttending n - 1))
   \<and> (m_attendingList n = [] \<longrightarrow>
        GetNPendingAttending (RegisterAttendingCall n a d p t) = 1
      \<and> GetNPendingAttending (CloseAttending (RegisterAttendingCall n a d p t) a) = 0
      \<and> CloseAttending (CloseAttending (RegisterAttendingCall n a d p t) a) a
           = CloseAttending (RegisterAttendingCall n a d p t) a
      \<and> GetNPendingAttending
           (CloseAttending (CloseAttending (RegisterAttendingCall n a d p t) a) a) = 0)"
proof (intro conjI impI)
  show "m_attendingList (RegisterAttendingCall n a d p t) =
     m_attendingList n @
       [\<lparr>Attending.ip = a, criticalData = d, attendingTime = t, attendingPriority = p\<rparr>]"
    by (simp add: RegisterAttendingCall_def)
next
  assume "length (m_attendingList n) < 2 ^ 31 - 1"
  then show "GetNPendingAttending (RegisterAttendingCall n a d p t) = GetNPendingAttending n + 1"
    by (rule register_count)
next
  assume "a \<notin> Attending.ip ` set (m_attendingList n)"
  then show "CloseAttending n a = n" by (rule close_absent)
next
  assume "length (m_attendingList n) < 2 ^ 31 \<and> a \<in> Attending.ip ` set (m_attendingList n)"
  then show "\<exists>k<length (m_attendingList n).
            Attending.ip (m_attendingList n ! k) = a
          \<and> (\<forall>j<k. Attending.ip (m_attendingList n ! j) \<noteq> a)
          \<and> CloseAttending n a = n\<lparr>m_attendingList := erase_at (m_attendingList n) k\<rparr>
          \<and> GetNPendingAttending (CloseAttending n a) = GetNPendingAttending n - 1"
    using close_present [of n a] by blast
next
  assume e: "m_attendingList n = []"
  show "GetNPendingAttending (RegisterAttendingCall n a d p t) = 1"
    using e by (rule open_close_close(1))
  show "GetNPendingAttending (CloseAttending (RegisterAttendingCall n a d p t) a) = 0"
    using e by (rule open_close_close(2))
  show "CloseAttending (CloseAttending (RegisterAttendingCall n a d p t) a) a
          = CloseAttending (RegisterAttendingCall n a d p t) a"
    using e by (rule open_close_close(3))
  show "GetNPendingAttending
          (CloseAttending (CloseAttending (RegisterAttendingCall n a d p t) a) a) = 0"
    using e by (rule open_close_close(4))
qed

theorem attending_queue_witness:
  "m_attendingList fresh_node = []
   \<and> GetNPendingAttending fresh_node = 0
   \<and> GetNPendingAttending (RegisterAttendingCall fresh_node 1 ''InfoA'' 1 0) = 1
   \<and> GetNPendingAttending
        (CloseAttending (RegisterAttendingCall fresh_node 1 ''InfoA'' 1 0) 1) = 0
   \<and> GetNPendingAttending
        (CloseAttending (CloseAttending (RegisterAttendingCall fresh_node 1 ''InfoA'' 1 0) 1) 1) = 0
   \<and> CloseAttending fresh_node 1 = fresh_node"
proof -
  have e: "m_attendingList fresh_node = []"
    by (simp add: fresh_node_def)
  then have z: "GetNPendingAttending fresh_node = 0"
    by (simp add: GetNPendingAttending_def)
  from attending_queue [of fresh_node 1 "''InfoA''" 1 0] e z show ?thesis
    by simp
qed

text \<open>
  Claim C8 as stated fails: on a list of \<open>2\<^sup>3\<^sup>1 - 1\<close> records the count is
  2147483647, and after \<^verbatim>\<open>RegisterAttendingCall\<close> it is -2147483648.
\<close>
theorem count_wraps:
  "GetNPendingAttending full_queue_node = 2147483647
   \<and> GetNPendingAttending (RegisterAttendingCall full_queue_node 2 ''InfoB'' 1 0) = - 2147483648
   \<and> GetNPendingAttending (RegisterAttendingCall full_queue_node 2 ''InfoB'' 1 0)
       \<noteq> GetNPendingAttending full_queue_node + 1"
  by (simp add: GetNPendingAttending_def RegisterAttendingCall_def full_queue_node_def)

subsection \<open>The most trusted neighbor by competence\<close>

lemma best_of_competence_0:
  "best_of_competence (x # rest) c 0 \<longleftrightarrow>
     competence x = c \<and> (\<forall>r\<in>set rest. competence r = c \<longrightarrow> trust r \<le> trust x)"
  by (auto simp: best_of_competence_def)

lemma best_of_competence_Suc:
  "best_of_competence (x # rest) c (Suc j) \<longleftrightarrow>
     best_of_competence rest c j \<and> (competence x = c \<longrightarrow> trust x < trust (rest ! j))"
  by (auto simp: best_of_competence_def)

lemma inner_none:
  "\<not> (\<exists>x\<in>set xs. competence x = c \<and> b0 < trust x) \<Longrightarrow>
     GetPlusTrustNeighbor_inner xs k c (b0, n0, g0) = (b0, n0, g0)"
  by (induction xs arbitrary: k) auto

lemma inner_some:
  "\<exists>x\<in>set xs. competence x = c \<and> b0 < trust x \<Longrightarrow>
     \<exists>j. best_of_competence xs c j \<and> b0 < trust (xs ! j)
        \<and> GetPlusTrustNeighbor_inner xs k c (b0, n0, g0) = (trust (xs ! j), Some (k + j), True)"
proof (induction xs arbitrary: k b0 n0 g0)
  case Nil
  then show ?case by simp
next
  case (Cons x rest)
  show ?case
  proof (cases "competence x = c \<and> b0 < trust x")
    case True
    note hit = this
    show ?thesis
    proof (cases "\<exists>y\<in>set rest. competence y = c \<and> trust x < trust y")
      case True
      from Cons.IH [OF this, of "Suc k" "Some k" True] obtain j where
        j: "best_of_competence rest c j" "trust x < trust (rest ! j)"
           "GetPlusTrustNeighbor_inner rest (Suc k) c (trust x, Some k, True)
              = (trust (rest ! j), Some (Suc k + j), True)"
        by blast
      have "best_of_competence (x # rest) c (Suc j)"
        using j(1,2) by (simp add: best_of_competence_Suc)
      moreover have "b0 < trust ((x # rest) ! Suc j)"
        using hit j(2) by simp
      moreover have "GetPlusTrustNeighbor_inner (x # rest) k c (b0, n0, g0)
                       = (trust ((x # rest) ! Suc j), Some (k + Suc j), True)"
        using hit j(3) by simp
      ultimately show ?thesis by blast
    next
      case False
      from inner_none [OF this, of "Suc k" "Some k" True]
      have "GetPlusTrustNeighbor_inner (x # rest) k c (b0, n0, g0)
              = (trust ((x # rest) ! 0), Some (k + 0), True)"
        using hit by simp
      moreover have "best_of_competence (x # rest) c 0"
        using hit False by (auto simp: best_of_competence_0 not_less)
      moreover have "b0 < trust ((x # rest) ! 0)"
        using hit by simp
      ultimately show ?thesis by blast
    qed
  next
    case False
    note miss = this
    with Cons.prems have "\<exists>y\<in>set rest. competence y = c \<and> b0 < trust y" by auto
    from Cons.IH [OF this, of "Suc k" n0 g0] obtain j where
      j: "best_of_competence rest c j" "b0 < trust (rest ! j)"
         "GetPlusTrustNeighbor_inner rest (Suc k) c (b0, n0, g0)
            = (trust (rest ! j), Some (Suc k + j), True)"
      by blast
    have "best_of_competence (x # rest) c (Suc j)"
      using j(1,2) miss by (auto simp: best_of_competence_Suc)
    moreover have "GetPlusTrustNeighbor_inner (x # rest) k c (b0, n0, g0)
                     = (trust ((x # rest) ! Suc j), Some (k + Suc j), True)"
      using miss j(3) by auto
    ultimately show ?thesis using j(2) by (intro exI [of _ "Suc j"]) simp
  qed
qed

lemma loop_step_no:
  assumes "unat i < length cs" and "\<not> qualifies l (cs ! unat i)"
  shows "GetPlusTrustNeighbor_loop l cs i (0, None, False)
           = GetPlusTrustNeighbor_loop l cs (i + 1) (0, None, False)"
proof -
  from assms(2) have "\<not> (\<exists>x\<in>set l. competence x = cs ! unat i \<and> 0 < trust x)"
    by (simp add: qualifies_def)
  from inner_none [OF this, of 0 None False] assms(1) show ?thesis
    by (subst GetPlusTrustNeighbor_loop.simps) simp
qed

lemma loop_step_yes:
  assumes "unat i < length cs" and "qualifies l (cs ! unat i)"
  shows "\<exists>j. best_of_competence l (cs ! unat i) j \<and> 0 < trust (l ! j)
           \<and> GetPlusTrustNeighbor_loop l cs i (0, None, False)
               = Some (Inr (trust (l ! j), Some j, True))"
proof -
  from assms(2) have "\<exists>x\<in>set l. competence x = cs ! unat i \<and> 0 < trust x"
    by (simp add: qualifies_def)
  from inner_some [OF this, of 0 None False] obtain j where
    j: "best_of_competence l (cs ! unat i) j" "0 < trust (l ! j)"
       "GetPlusTrustNeighbor_inner l 0 (cs ! unat i) (0, None, False)
          = (trust (l ! j), Some j, True)"
    by auto
  have "GetPlusTrustNeighbor_loop l cs i (0, None, False)
          = Some (Inr (trust (l ! j), Some j, True))"
    using assms(1) j(3) by (subst GetPlusTrustNeighbor_loop.simps) simp
  with j(1,2) show ?thesis by blast
qed

lemma unat_u8: "k < 256 \<Longrightarrow> unat (word_of_nat k :: 8 word) = k"
  by (simp add: unat_of_nat)

lemma loop_skip:
  assumes "q < length cs" and "q < 256" and "\<forall>p<q. \<not> qualifies l (cs ! p)" and "i \<le> q"
  shows "GetPlusTrustNeighbor_loop l cs (word_of_nat i) (0, None, False)
           = GetPlusTrustNeighbor_loop l cs (word_of_nat q) (0, None, False)"
  using assms(4)
proof (induction rule: inc_induct)
  case base
  show ?case by simp
next
  case (step n)
  from step.hyps assms(2) have n: "unat (word_of_nat n :: 8 word) = n"
    by (intro unat_u8) simp
  have "GetPlusTrustNeighbor_loop l cs (word_of_nat n) (0, None, False)
          = GetPlusTrustNeighbor_loop l cs (word_of_nat n + 1) (0, None, False)"
    using step.hyps assms(1,3) by (intro loop_step_no) (simp_all add: n)
  also have "(word_of_nat n + 1 :: 8 word) = word_of_nat (Suc n)" by simp
  finally show ?case using step.IH by simp
qed

lemma loop_first_tier:
  assumes "q < length cs" and "q < 256" and "qualifies l (cs ! q)"
    and "\<forall>p<q. \<not> qualifies l (cs ! p)"
  shows "\<exists>j. best_of_competence l (cs ! q) j \<and> 0 < trust (l ! j)
           \<and> GetPlusTrustNeighbor_loop l cs 0 (0, None, False)
               = Some (Inr (trust (l ! j), Some j, True))"
proof -
  have q: "unat (word_of_nat q :: 8 word) = q"
    using assms(2) by (rule unat_u8)
  from loop_skip [OF assms(1,2,4), of 0]
  have "GetPlusTrustNeighbor_loop l cs 0 (0, None, False)
          = GetPlusTrustNeighbor_loop l cs (word_of_nat q) (0, None, False)"
    by simp
  moreover from loop_step_yes [of "word_of_nat q" cs l] assms(1,3)
  obtain j where "best_of_competence l (cs ! q) j" "0 < trust (l ! j)"
    "GetPlusTrustNeighbor_loop l cs (word_of_nat q) (0, None, False)
       = Some (Inr (trust (l ! j), Some j, True))"
    by (auto simp: q)
  ultimately show ?thesis by auto
qed

lemma loop_returns_only_after_hit:
  assumes "GetPlusTrustNeighbor_loop l cs i st = Some r"
  shows "\<not> (256 \<le> length cs \<and> (\<forall>p<256. \<not> qualifies l (cs ! p)) \<and> st = (0, None, False))"
proof (rule GetPlusTrustNeighbor_loop.raw_induct
    [where P = "\<lambda>l cs i st r. \<not> (256 \<le> length cs \<and> (\<forall>p<256. \<not> qualifies l (cs ! p))
                   \<and> st = (0, None, False))", OF _ assms], goal_cases)
  case (1 f l cs i st r)
  show ?case
  proof
    assume a: "256 \<le> length cs \<and> (\<forall>p<256. \<not> qualifies l (cs ! p)) \<and> st = (0, None, False)"
    have lt: "unat i < 256" using unsigned_less [of i, where 'a = nat] by simp
    with a have rng: "unat i < length cs" by simp
    from a lt have "\<not> (\<exists>x\<in>set l. competence x = cs ! unat i \<and> 0 < trust x)"
      by (simp add: qualifies_def)
    from inner_none [OF this, of 0 None False]
    have "f l cs (i + 1) (0, None, False) = Some r"
      using "1"(2) rng a by simp
    from "1"(1) [OF this] a show False by simp
  qed
qed

lemma loop_diverges:
  assumes "256 \<le> length cs" and "\<forall>p<256. \<not> qualifies l (cs ! p)"
  shows "GetPlusTrustNeighbor_loop l cs i (0, None, False) = None"
proof (cases "GetPlusTrustNeighbor_loop l cs i (0, None, False)")
  case None
  then show ?thesis .
next
  case (Some r)
  from loop_returns_only_after_hit [OF this] assms show ?thesis by simp
qed

lemma loop_exit_by_break:
  assumes "GetPlusTrustNeighbor_loop l cs i st = Some r"
  shows "256 \<le> length cs \<longrightarrow> (\<exists>b n. r = Inr (b, n, True))"
proof (rule GetPlusTrustNeighbor_loop.raw_induct
    [where P = "\<lambda>l cs i st r. 256 \<le> length cs \<longrightarrow> (\<exists>b n. r = Inr (b, n, True))",
     OF _ assms], goal_cases)
  case (1 f l cs i st r)
  show ?case
  proof
    assume len: "256 \<le> length cs"
    have lt: "unat i < 256" using unsigned_less [of i, where 'a = nat] by simp
    with len have rng: "unat i < length cs" by simp
    let ?st = "GetPlusTrustNeighbor_inner l 0 (cs ! unat i) st"
    show "\<exists>b n. r = Inr (b, n, True)"
    proof (cases "snd (snd ?st)")
      case True
      with "1"(2) rng have "r = Inr ?st" by (simp add: Let_def)
      with True show ?thesis by (cases ?st) auto
    next
      case False
      with "1"(2) rng have "f l cs (i + 1) ?st = Some r" by (simp add: Let_def)
      from "1"(1) [OF this] len show ?thesis by simp
    qed
  qed
qed

lemma loop_terminates:
  assumes "length cs < 256" and "i \<le> length cs"
  shows "GetPlusTrustNeighbor_loop l cs (word_of_nat i) st \<noteq> None"
  using assms(2)
proof (induction "length cs - i" arbitrary: i st)
  case 0
  then have "unat (word_of_nat i :: 8 word) = length cs"
    using assms(1) by (simp add: unat_u8)
  then show ?case by (subst GetPlusTrustNeighbor_loop.simps) simp
next
  case (Suc d)
  then have lt: "i < length cs" by simp
  with assms(1) have u: "unat (word_of_nat i :: 8 word) = i" by (simp add: unat_u8)
  have w: "(word_of_nat i + 1 :: 8 word) = word_of_nat (Suc i)" by simp
  have "GetPlusTrustNeighbor_loop l cs (word_of_nat (Suc i)) st' \<noteq> None" for st'
    using Suc.hyps(2) lt by (intro Suc.hyps(1)) simp_all
  then show ?case
    using lt u by (subst GetPlusTrustNeighbor_loop.simps) (simp add: Let_def w del: of_nat_Suc)
qed

lemma GetPlusTrustNeighbor_None:
  "GetPlusTrustNeighbor nd cs = None \<longleftrightarrow>
     GetPlusTrustNeighbor_loop (m_neighborList nd) cs 0 (0, None, False) = None"
  by (auto simp: GetPlusTrustNeighbor_def split: option.splits sum.splits)

lemma GetPlusTrustNeighbor_first_tier:
  assumes "q < length cs" and "q < 256" and "qualifies (m_neighborList nd) (cs ! q)"
    and "\<forall>p<q. \<not> qualifies (m_neighborList nd) (cs ! p)"
  shows "\<exists>j. best_of_competence (m_neighborList nd) (cs ! q) j
           \<and> GetPlusTrustNeighbor nd cs = Some (Inr (Neighbor.ip (m_neighborList nd ! j)))"
proof -
  from loop_first_tier [OF assms] obtain j where
    j: "best_of_competence (m_neighborList nd) (cs ! q) j"
       "GetPlusTrustNeighbor_loop (m_neighborList nd) cs 0 (0, None, False)
          = Some (Inr (trust (m_neighborList nd ! j), Some j, True))"
    by blast
  from j(1) have "j < length (m_neighborList nd)"
    by (simp add: best_of_competence_def)
  with j(2) have "GetPlusTrustNeighbor nd cs = Some (Inr (Neighbor.ip (m_neighborList nd ! j)))"
    by (simp add: GetPlusTrustNeighbor_def)
  with j(1) show ?thesis by blast
qed

lemma first_qualifying_label:
  assumes "q < length cs" and "qualifies l (cs ! q)"
  shows "\<exists>q'\<le>q. qualifies l (cs ! q') \<and> (\<forall>p<q'. \<not> qualifies l (cs ! p))"
proof -
  define q' where "q' = (LEAST k. qualifies l (cs ! k))"
  have "qualifies l (cs ! q')"
    unfolding q'_def using assms(2) by (rule LeastI)
  moreover have "q' \<le> q"
    unfolding q'_def using assms(2) by (rule Least_le)
  moreover have "\<forall>p<q'. \<not> qualifies l (cs ! p)"
    unfolding q'_def using not_less_Least by blast
  ultimately show ?thesis by blast
qed

lemma GetPlusTrustNeighbor_short_list:
  assumes "length cs \<le> 256" and "\<exists>q<length cs. qualifies (m_neighborList nd) (cs ! q)"
  shows "\<exists>q j. q < length cs \<and> qualifies (m_neighborList nd) (cs ! q)
           \<and> (\<forall>p<q. \<not> qualifies (m_neighborList nd) (cs ! p))
           \<and> best_of_competence (m_neighborList nd) (cs ! q) j
           \<and> GetPlusTrustNeighbor nd cs = Some (Inr (Neighbor.ip (m_neighborList nd ! j)))"
proof -
  from assms(2) obtain q0 where q0: "q0 < length cs" "qualifies (m_neighborList nd) (cs ! q0)"
    by blast
  from first_qualifying_label [OF q0] obtain q where
    q: "q \<le> q0" "qualifies (m_neighborList nd) (cs ! q)"
       "\<forall>p<q. \<not> qualifies (m_neighborList nd) (cs ! p)"
    by blast
  from q(1) q0(1) assms(1) have "q < length cs" "q < 256" by simp_all
  from GetPlusTrustNeighbor_first_tier [OF this q(2,3)] \<open>q < length cs\<close> q(2,3)
  show ?thesis by blast
qed

text \<open>
  Claim C10. For a competence list of fewer than 256 labels \<^verbatim>\<open>GetPlusTrustNeighbor\<close>
  returns (an address, or the fault of reading the iterator \<open>n\<close> that was never
  assigned). For a list of 256 labels or more the counter never equals the size of
  the list: whenever the outer loop returns, it has left through \<^verbatim>\<open>break\<close> with
  \<^verbatim>\<open>gotTrust\<close> set, and the call does not return at all exactly when none of the
  first 256 labels has a record with a trust above 0.
\<close>
theorem tier_loop_termination:
  "(length cs < 256 \<longrightarrow> GetPlusTrustNeighbor nd cs \<noteq> None)
   \<and> (256 \<le> length cs \<longrightarrow>
        (\<forall>r. GetPlusTrustNeighbor_loop (m_neighborList nd) cs 0 (0, None, False) = Some r
              \<longrightarrow> (\<exists>b n. r = Inr (b, n, True)))
      \<and> (GetPlusTrustNeighbor nd cs = None
           \<longleftrightarrow> (\<forall>p<256. \<not> qualifies (m_neighborList nd) (cs ! p))))"
proof (intro conjI impI allI)
  assume "length cs < 256"
  from loop_terminates [OF this, of 0 "m_neighborList nd" "(0, None, False)"]
  show "GetPlusTrustNeighbor nd cs \<noteq> None"
    by (simp add: GetPlusTrustNeighbor_None)
next
  fix r
  assume "256 \<le> length cs"
    and "GetPlusTrustNeighbor_loop (m_neighborList nd) cs 0 (0, None, False) = Some r"
  with loop_exit_by_break show "\<exists>b n. r = Inr (b, n, True)" by blast
next
  assume len: "256 \<le> length cs"
  show "GetPlusTrustNeighbor nd cs = None
          \<longleftrightarrow> (\<forall>p<256. \<not> qualifies (m_neighborList nd) (cs ! p))"
  proof
    assume none: "GetPlusTrustNeighbor nd cs = None"
    show "\<forall>p<256. \<not> qualifies (m_neighborList nd) (cs ! p)"
    proof (intro allI impI notI)
      fix p :: nat
      assume p: "p < 256" "qualifies (m_neighborList nd) (cs ! p)"
      with len have "p < length cs" by simp
      from first_qualifying_label [OF this p(2)] obtain q where
        q: "q \<le> p" "qualifies (m_neighborList nd) (cs ! q)"
           "\<forall>k<q. \<not> qualifies (m_neighborList nd) (cs ! k)"
        by blast
      from q(1) p(1) len have "q < length cs" "q < 256" by simp_all
      from GetPlusTrustNeighbor_first_tier [OF this q(2,3)] none show False by simp
    qed
  next
    assume "\<forall>p<256. \<not> qualifies (m_neighborList nd) (cs ! p)"
    from loop_diverges [OF len this] show "GetPlusTrustNeighbor nd cs = None"
      by (simp add: GetPlusTrustNeighbor_None)
  qed
qed

lemma example_node_no_caregiver: "\<not> qualifies (m_neighborList example_node) ''caregiver''"
  by (simp add: qualifies_def example_node_def)

lemma example_node_doctor: "qualifies (m_neighborList example_node) ''doctor''"
  by (simp add: qualifies_def example_node_def)

lemma caregivers_then_doctor:
  "\<forall>p<256. \<not> qualifies (m_neighborList example_node)
                 ((replicate 256 ''caregiver'' @ [''doctor'']) ! p)"
  by (simp add: nth_append example_node_no_caregiver)

lemma caregivers_only:
  "\<forall>p<256. \<not> qualifies (m_neighborList example_node) (replicate 256 ''caregiver'' ! p)"
  by (simp add: example_node_no_caregiver)

theorem tier_loop_termination_witness:
  "GetPlusTrustNeighbor example_node [''doctor''] \<noteq> None
   \<and> GetPlusTrustNeighbor example_node (replicate 256 ''caregiver'') = None"
  using tier_loop_termination [of "[''doctor'']" example_node]
    tier_loop_termination [of "replicate 256 ''caregiver''" example_node] caregivers_only
  by simp

text \<open>
  Claim C1. On the competence lists of at most 256 labels the function returns
  what the claim says (\<open>GetPlusTrustNeighbor_short_list\<close> above). The claim is about
  every list, and there the code fails it: in the example node the doctor at
  address 2 has trust 0.2, and \<^verbatim>\<open>GetPlusTrustNeighbor\<close> returns address 2 for the list
  of a caregiver label and the doctor label, but does not return for the list of
  256 caregiver labels followed by the doctor label, because the 8-bit counter
  wraps to 0 before it reaches the doctor label.
\<close>
theorem GetPlusTrustNeighbor_long_list:
  "qualifies (m_neighborList example_node) ''doctor''
   \<and> GetPlusTrustNeighbor example_node [''caregiver'', ''doctor''] = Some (Inr 2)
   \<and> GetPlusTrustNeighbor example_node (replicate 256 ''caregiver'' @ [''doctor'']) = None"
proof -
  have "GetPlusTrustNeighbor example_node [''caregiver'', ''doctor''] = Some (Inr 2)"
    by (simp add: GetPlusTrustNeighbor_def GetPlusTrustNeighbor_loop.simps example_node_def)
  moreover have "GetPlusTrustNeighbor example_node (replicate 256 ''caregiver'' @ [''doctor''])
                   = None"
    using loop_diverges [OF _ caregivers_then_doctor, of 0]
    by (simp add: GetPlusTrustNeighbor_None)
  ultimately show ?thesis using example_node_doctor by simp
qed

lemma GetPlusTrustNeighbor_priority_tier:
  "GetPlusTrustNeighbor example_node [''doctor'', ''nurse''] = Some (Inr 2)"
  by (simp add: GetPlusTrustNeighbor_def GetPlusTrustNeighbor_loop.simps example_node_def)

end
